theory Spec2Isabelle
  imports Main "HOL-Library.Sublist"
begin

section \<open>Strings and paths\<close>

text \<open>
  JavaScript strings are modelled as \<^typ>\<open>string\<close>: a list of code units, restricted to the
  code units U+0000 .. U+00FF.  \<open>String.prototype.includes\<close> and
  \<open>String.prototype.startsWith\<close> compare code units, so they are the contiguous-sublist
  and the prefix relation on lists.
\<close>

definition string_includes :: "string \<Rightarrow> string \<Rightarrow> bool" where
  "string_includes s b = sublist b s"

definition string_startsWith :: "string \<Rightarrow> string \<Rightarrow> bool" where
  "string_startsWith s w = prefix w s"

text \<open>
  Node's POSIX \<open>path\<close> module.  A path is split at every \<open>/\<close>; \<open>normalizeString\<close> walks the
  segments from left to right, skipping empty and \<open>.\<close> segments and resolving \<open>..\<close> against
  the segments kept so far (\<open>allowAboveRoot\<close> says whether a \<open>..\<close> that has nothing to
  cancel is kept).
\<close>

fun split_slash :: "string \<Rightarrow> string list" where
  "split_slash [] = [[]]"
| "split_slash (c # cs) =
     (if c = CHR ''/'' then [] # split_slash cs
      else (case split_slash cs of
              [] \<Rightarrow> [[c]]
            | s # ss \<Rightarrow> (c # s) # ss))"

fun join_slash :: "string list \<Rightarrow> string" where
  "join_slash [] = []"
| "join_slash [s] = s"
| "join_slash (s # t # ss) = s @ ''/'' @ join_slash (t # ss)"

fun normalizeString :: "bool \<Rightarrow> string list \<Rightarrow> string list \<Rightarrow> string list" where
  "normalizeString allowAboveRoot res [] = res"
| "normalizeString allowAboveRoot res (s # ss) =
     (if s = [] \<or> s = ''.'' then normalizeString allowAboveRoot res ss
      else if s = ''..'' then
        (if res \<noteq> [] \<and> last res \<noteq> ''..'' then normalizeString allowAboveRoot (butlast res) ss
         else if allowAboveRoot then normalizeString allowAboveRoot (res @ [''..'']) ss
         else normalizeString allowAboveRoot res ss)
      else normalizeString allowAboveRoot (res @ [s]) ss)"

definition isAbsolute :: "string \<Rightarrow> bool" where
  "isAbsolute p = (p \<noteq> [] \<and> hd p = CHR ''/'')"

definition normalize :: "string \<Rightarrow> string" where
  "normalize p =
     (if p = [] then ''.''
      else
        let trailingSeparator = (last p = CHR ''/'');
            segs = normalizeString (\<not> isAbsolute p) [] (split_slash p)
        in if segs = [] then
             (if isAbsolute p then ''/'' else if trailingSeparator then ''./'' else ''.'')
           else (if isAbsolute p then ''/'' else [])
                @ join_slash segs
                @ (if trailingSeparator then ''/'' else []))"

text \<open>\<open>path.join(a, b)\<close>: the non-empty arguments joined by \<open>/\<close>, then normalised.\<close>

definition path_join :: "string \<Rightarrow> string \<Rightarrow> string" where
  "path_join a b =
     (if a = [] \<and> b = [] then ''.''
      else if a = [] then normalize b
      else if b = [] then normalize a
      else normalize (a @ ''/'' @ b))"

text \<open>
  \<open>path.relative(from, to)\<close> resolves both arguments to absolute paths, drops their common
  leading segments, and answers one \<open>..\<close> for every remaining segment of \<open>from\<close> followed
  by the remaining segments of \<open>to\<close>.  The program only calls it with absolute arguments
  (both are built from \<open>process.cwd()\<close>), for which resolving is normalising.
\<close>

definition resolve_segments :: "string \<Rightarrow> string list" where
  "resolve_segments p = normalizeString False [] (split_slash p)"

fun common_length :: "string list \<Rightarrow> string list \<Rightarrow> nat" where
  "common_length (x # xs) (y # ys) = (if x = y then Suc (common_length xs ys) else 0)"
| "common_length xs ys = 0"

definition path_relative :: "string \<Rightarrow> string \<Rightarrow> string" where
  "path_relative from to =
     (let f = resolve_segments from;
          t = resolve_segments to;
          k = common_length f t
      in join_slash (replicate (length f - k) ''..'' @ drop k t))"

section \<open>Configuration and directory trees\<close>

record config =
  whitelist :: "string list"
  blacklist :: "string list"

text \<open>
  What \<open>readdir(dir, {withFileTypes: true})\<close> answers: the entries of a directory in the
  order of the directory provider, each with its name and whether it is a directory.  The
  listing of a subdirectory is attached to its entry; \<open>None\<close> is a directory whose
  \<open>readdir\<close> is rejected.
\<close>

datatype dirent = FileEntry string | DirEntry string "dirent list option"

text \<open>
  The rejections that end a run.  A rejected \<open>readFile\<close> carries the path when the file
  could not be opened; a read that fails after the file was opened carries none.
\<close>

datatype error = ScanError string | ReadError "string option" | WriteError string

section \<open>The scan\<close>

text \<open>
  \<open>getAllFiles(dirPath, config, relativeBase)\<close>, with the listing that \<open>readdir\<close> gives for
  \<open>dirPath\<close> as last argument.  \<open>getAllFiles_entries\<close> is the \<open>for\<close> loop over the entries, with the
  array \<open>files\<close> collected so far.
\<close>

fun getAllFiles :: "string \<Rightarrow> config \<Rightarrow> string \<Rightarrow> dirent list option \<Rightarrow> error + string list"
  and getAllFiles_entries ::
    "string \<Rightarrow> config \<Rightarrow> string \<Rightarrow> string list \<Rightarrow> dirent list \<Rightarrow> error + string list"
where
  "getAllFiles dirPath config relativeBase None = Inl (ScanError dirPath)"
| "getAllFiles dirPath config relativeBase (Some entries) =
     getAllFiles_entries dirPath config relativeBase [] entries"
| "getAllFiles_entries dirPath config relativeBase files [] = Inr files"
| "getAllFiles_entries dirPath config relativeBase files (FileEntry name # entries) =
     (let fullPath = path_join dirPath name;
          relPath = path_relative relativeBase fullPath
      in if list_ex (\<lambda>b. string_includes relPath b) (blacklist config) then
           getAllFiles_entries dirPath config relativeBase files entries
         else if length (whitelist config) > 0
                 \<and> \<not> list_ex (\<lambda>w. string_startsWith relPath w) (whitelist config) then
           getAllFiles_entries dirPath config relativeBase files entries
         else getAllFiles_entries dirPath config relativeBase (files @ [fullPath]) entries)"
| "getAllFiles_entries dirPath config relativeBase files (DirEntry name listing # entries) =
     (let fullPath = path_join dirPath name;
          relPath = path_relative relativeBase fullPath
      in if list_ex (\<lambda>b. string_includes relPath b) (blacklist config) then
           getAllFiles_entries dirPath config relativeBase files entries
         else (case getAllFiles fullPath config relativeBase listing of
                 Inl e \<Rightarrow> Inl e
               | Inr subFiles \<Rightarrow>
                   getAllFiles_entries dirPath config relativeBase (files @ subFiles) entries))"

text \<open>The candidate set of \<open>main\<close>: \<open>allFiles.map(f => path.relative(process.cwd(), f))\<close>.\<close>

definition relativePaths :: "string \<Rightarrow> string list \<Rightarrow> string list" where
  "relativePaths cwd allFiles = map (\<lambda>f. path_relative cwd f) allFiles"


section \<open>The filter and the scan as the specification words them\<close>

text \<open>
  PathFilter: \<open>isEligible(relativePath, isDirectory, rules)\<close> is false if a blacklist entry
  is a substring of the path; otherwise true if the whitelist is empty; otherwise a
  directory is eligible and a file is eligible only if its path starts with a whitelist
  entry.
\<close>

definition spec_isEligible :: "string \<Rightarrow> bool \<Rightarrow> config \<Rightarrow> bool" where
  "spec_isEligible relativePath isDirectory rules =
     (if list_ex (\<lambda>b. sublist b relativePath) (blacklist rules) then False
      else if whitelist rules = [] then True
      else if isDirectory then True
      else list_ex (\<lambda>w. prefix w relativePath) (whitelist rules))"

text \<open>The relative path of the entry \<open>name\<close> of the directory whose relative path is \<open>rel\<close>.\<close>

definition child_path :: "string \<Rightarrow> string \<Rightarrow> string" where
  "child_path rel name = (if rel = [] then name else rel @ ''/'' @ name)"

text \<open>
  TreeScanner: for every entry, in enumeration order, the relative path is filtered; an
  eligible file contributes its path, an eligible directory the result of its subtree, in
  place.  An eligible directory that cannot be read aborts the whole scan (\<open>None\<close>).
\<close>

fun spec_scan :: "config \<Rightarrow> string \<Rightarrow> dirent list option \<Rightarrow> string list option"
  and spec_scan_entries :: "config \<Rightarrow> string \<Rightarrow> dirent list \<Rightarrow> string list option"
where
  "spec_scan rules rel None = None"
| "spec_scan rules rel (Some entries) = spec_scan_entries rules rel entries"
| "spec_scan_entries rules rel [] = Some []"
| "spec_scan_entries rules rel (FileEntry name # entries) =
     (case spec_scan_entries rules rel entries of
        None \<Rightarrow> None
      | Some rest \<Rightarrow>
          Some ((if spec_isEligible (child_path rel name) False rules
                 then [child_path rel name] else []) @ rest))"
| "spec_scan_entries rules rel (DirEntry name listing # entries) =
     (if spec_isEligible (child_path rel name) True rules then
        (case spec_scan rules (child_path rel name) listing of
           None \<Rightarrow> None
         | Some sub \<Rightarrow>
             (case spec_scan_entries rules rel entries of
                None \<Rightarrow> None
              | Some rest \<Rightarrow> Some (sub @ rest)))
      else spec_scan_entries rules rel entries)"

text \<open>
  The relative paths of all files of a tree, depth-first in enumeration order, and the
  names a tree uses.  \<open>readdir\<close> answers names that are non-empty, contain no \<open>/\<close> and are
  neither \<open>.\<close> nor \<open>..\<close>.
\<close>

fun all_files :: "string \<Rightarrow> dirent list option \<Rightarrow> string list"
  and all_files_entries :: "string \<Rightarrow> dirent list \<Rightarrow> string list"
where
  "all_files rel None = []"
| "all_files rel (Some entries) = all_files_entries rel entries"
| "all_files_entries rel [] = []"
| "all_files_entries rel (FileEntry name # entries) =
     child_path rel name # all_files_entries rel entries"
| "all_files_entries rel (DirEntry name listing # entries) =
     all_files (child_path rel name) listing @ all_files_entries rel entries"

definition valid_name :: "string \<Rightarrow> bool" where
  "valid_name n = (n \<noteq> [] \<and> CHR ''/'' \<notin> set n \<and> n \<noteq> ''.'' \<and> n \<noteq> ''..'')"

fun valid_names :: "dirent list option \<Rightarrow> bool"
  and valid_names_entries :: "dirent list \<Rightarrow> bool"
where
  "valid_names None = True"
| "valid_names (Some entries) = valid_names_entries entries"
| "valid_names_entries [] = True"
| "valid_names_entries (FileEntry name # entries) =
     (valid_name name \<and> valid_names_entries entries)"
| "valid_names_entries (DirEntry name listing # entries) =
     (valid_name name \<and> valid_names listing \<and> valid_names_entries entries)"

text \<open>The filter conditions of the scan, as predicates of a relative path.\<close>

definition blacklisted :: "config \<Rightarrow> string \<Rightarrow> bool" where
  "blacklisted config p = list_ex (\<lambda>b. string_includes p b) (blacklist config)"

definition whitelisted :: "config \<Rightarrow> string \<Rightarrow> bool" where
  "whitelisted config p = list_ex (\<lambda>w. string_startsWith p w) (whitelist config)"


text \<open>A relative path passes the filter as a file.\<close>

definition admitted :: "config \<Rightarrow> string \<Rightarrow> bool" where
  "admitted c p = (\<not> blacklisted c p \<and> (whitelist c = [] \<or> whitelisted c p))"

section \<open>The output filename\<close>

text \<open>
  \<open>String.prototype.toLowerCase\<close> on the code units U+0000 .. U+00FF: the letters A .. Z and
  the letters U+00C0 .. U+00DE other than the multiplication sign U+00D7 move up by 32, every
  other code unit stays.
\<close>

definition toLowerCase_unit :: "char \<Rightarrow> char" where
  "toLowerCase_unit c =
     (let n = of_char c :: nat
      in if (65 \<le> n \<and> n \<le> 90) \<or> (192 \<le> n \<and> n \<le> 222 \<and> n \<noteq> 215)
         then char_of (n + 32) else c)"

definition toLowerCase :: "string \<Rightarrow> string" where
  "toLowerCase s = map toLowerCase_unit s"

text \<open>The character class \<open>[a-z0-9]\<close>.\<close>

definition in_az09 :: "char \<Rightarrow> bool" where
  "in_az09 c =
     (let n = of_char c :: nat in (97 \<le> n \<and> n \<le> 122) \<or> (48 \<le> n \<and> n \<le> 57))"

text \<open>
  \<open>.replace(/[^a-z0-9]+/g, '-')\<close>: the scan copies a code unit of the class; at any other
  code unit the greedy match takes the whole run of code units outside the class, and one
  \<open>-\<close> replaces it.
\<close>

function replace_non_az09 :: "string \<Rightarrow> string" where
  "replace_non_az09 [] = []"
| "replace_non_az09 (c # cs) =
     (if in_az09 c then c # replace_non_az09 cs
      else CHR ''-'' # replace_non_az09 (dropWhile (\<lambda>d. \<not> in_az09 d) cs))"
  by pat_completeness auto
termination
  by (relation "measure length") (auto simp: less_Suc_eq_le length_dropWhile_le)

text \<open>
  \<open>.replace(/^-+|-+$/g, '')\<close>: at the start of the string the first alternative removes the
  leading run of \<open>-\<close>; at every later position only the second alternative can match, and
  it matches when all that is left of the string is a non-empty run of \<open>-\<close>.
\<close>

fun replace_trailing_dashes :: "string \<Rightarrow> string" where
  "replace_trailing_dashes [] = []"
| "replace_trailing_dashes (c # cs) =
     (if c = CHR ''-'' \<and> list_all (\<lambda>d. d = CHR ''-'') cs then []
      else c # replace_trailing_dashes cs)"

definition replace_edge_dashes :: "string \<Rightarrow> string" where
  "replace_edge_dashes s = replace_trailing_dashes (dropWhile (\<lambda>c. c = CHR ''-'') s)"

definition generateFilenameFromPrompt :: "string \<Rightarrow> string" where
  "generateFilenameFromPrompt prompt =
     (let base = replace_edge_dashes (replace_non_az09 (toLowerCase prompt));
          filename = (if length base > 50 then take 50 base else base)
      in if filename = [] then ''prompt'' else filename)"

text \<open>
  The derivation as the specification words it: lowercase, replace every maximal run of
  non-alphanumeric characters by one \<open>-\<close>, strip leading and trailing \<open>-\<close>, truncate to at
  most 50 characters, fall back to \<open>prompt\<close>.  Alphanumeric is read as an ASCII letter or
  digit.
\<close>

definition ascii_alnum :: "char \<Rightarrow> bool" where
  "ascii_alnum c =
     (let n = of_char c :: nat
      in (65 \<le> n \<and> n \<le> 90) \<or> (97 \<le> n \<and> n \<le> 122) \<or> (48 \<le> n \<and> n \<le> 57))"

text \<open>A character outside the class stands for its run if it is the last one of the run.\<close>

fun spec_collapse_runs :: "string \<Rightarrow> string" where
  "spec_collapse_runs [] = []"
| "spec_collapse_runs [c] = (if ascii_alnum c then [c] else ''-'')"
| "spec_collapse_runs (c # d # cs) =
     (if ascii_alnum c then c # spec_collapse_runs (d # cs)
      else if ascii_alnum d then CHR ''-'' # spec_collapse_runs (d # cs)
      else spec_collapse_runs (d # cs))"

definition spec_strip_dashes :: "string \<Rightarrow> string" where
  "spec_strip_dashes s =
     rev (dropWhile (\<lambda>c. c = CHR ''-'') (rev (dropWhile (\<lambda>c. c = CHR ''-'') s)))"

text \<open>The sanitised form of a prompt: what the derivation has before it truncates.\<close>

definition spec_sanitised :: "string \<Rightarrow> string" where
  "spec_sanitised prompt = spec_strip_dashes (spec_collapse_runs (toLowerCase prompt))"

definition spec_deriveFilename :: "string \<Rightarrow> string" where
  "spec_deriveFilename prompt =
     (let s = take 50 (spec_strip_dashes (spec_collapse_runs (toLowerCase prompt)))
      in if s = [] then ''prompt'' else s)"

section \<open>The fuzzy index\<close>

text \<open>
  Modelled from the spec: \<open>Fuse\<close> and \<open>fuse.search\<close> belong to the library fuse.js, which is
  not part of the sources.  The specification (FuzzyIndex) says that a search answers the
  candidates that match the query within the permissiveness threshold, ordered by ascending
  match cost, ties broken by the original order of the candidates, and that no match gives
  the empty result.  The match cost is a parameter: \<open>cost query doc\<close> is \<open>None\<close> when
  \<open>doc\<close> does not match within the threshold.
\<close>

record 'c fuse_result =
  item :: string
  refIndex :: nat
  score :: 'c

definition fuse_search ::
  "(string \<Rightarrow> string \<Rightarrow> 'c::linorder option) \<Rightarrow> string list \<Rightarrow> string \<Rightarrow> 'c fuse_result list"
where
  "fuse_search cost docs query =
     sort_key score
       (List.map_filter
          (\<lambda>(i, d). map_option (\<lambda>c. \<lparr>item = d, refIndex = i, score = c\<rparr>) (cost query d))
          (enumerate 0 docs))"

text \<open>
  A match cost to run examples with: a document matches when it contains the query, at the
  cost of the characters it has beyond the query.
\<close>

definition substring_cost :: "string \<Rightarrow> string \<Rightarrow> nat option" where
  "substring_cost query doc =
     (if sublist query doc then Some (length doc - length query) else None)"

section \<open>The selection loop\<close>

text \<open>
  \<open>String.prototype.trim\<close> removes white space and line terminators from both ends; among
  the code units U+0000 .. U+00FF these are TAB, LF, VT, FF, CR, SP and NBSP.
\<close>

definition is_whitespace :: "char \<Rightarrow> bool" where
  "is_whitespace c = (of_char c \<in> {9, 10, 11, 12, 13, 32, 160 :: nat})"

definition string_trim :: "string \<Rightarrow> string" where
  "string_trim s = rev (dropWhile is_whitespace (rev (dropWhile is_whitespace s)))"

text \<open>
  The \<open>source\<close> callback of the autocomplete prompt; \<open>None\<close> is an \<open>input\<close> that is
  \<open>undefined\<close>.
\<close>

definition source ::
  "(string \<Rightarrow> string \<Rightarrow> 'c::linorder option) \<Rightarrow> string \<Rightarrow> string list \<Rightarrow> string option
   \<Rightarrow> string list"
where
  "source cost cwd allFiles input =
     (let input = (case input of None \<Rightarrow> [] | Some i \<Rightarrow> i)
      in if string_trim input = [] then ''Done'' # relativePaths cwd allFiles
         else map item (fuse_search cost (relativePaths cwd allFiles) input))"

text \<open>
  The state of the loop, and one pass through its body after the prompt has answered
  \<open>file\<close>.
\<close>

record session =
  selectedFiles :: "string list"
  addingFiles :: bool

definition initial_session :: session where
  "initial_session = \<lparr>selectedFiles = [], addingFiles = True\<rparr>"

definition select_file :: "session \<Rightarrow> string \<Rightarrow> session" where
  "select_file s file =
     (if file = ''Done'' then s\<lparr>addingFiles := False\<rparr>
      else if file \<noteq> [] \<and> file \<notin> set (selectedFiles s)
        then s\<lparr>selectedFiles := selectedFiles s @ [file]\<rparr>
      else s)"

text \<open>
  \<open>while (addingFiles)\<close>, run against the answers the user gives one after the other.  The
  loop has no bound of its own: it leaves \<open>addingFiles\<close> set as long as no answer was
  \<open>Done\<close>.
\<close>

fun selection_loop :: "session \<Rightarrow> string list \<Rightarrow> session" where
  "selection_loop s [] = s"
| "selection_loop s (file # answers) =
     (if addingFiles s then selection_loop (select_file s file) answers else s)"

text \<open>
  One interaction with the user: what was typed when the choice was made, and the choice.
  The list offered at that moment is \<open>source\<close> of what was typed.
\<close>

record interaction =
  typed :: "string option"
  chosen :: string

definition offered ::
  "(string \<Rightarrow> string \<Rightarrow> 'c::linorder option) \<Rightarrow> string \<Rightarrow> string list \<Rightarrow> interaction \<Rightarrow> bool"
where
  "offered cost cwd allFiles i = (chosen i \<in> set (source cost cwd allFiles (typed i)))"

section \<open>Document assembly\<close>











section \<open>Paths below the working directory\<close>

text \<open>
  Joining a valid entry name to an absolute directory path appends one segment, and the
  path relative to a base above the directory grows by that name.
\<close>

lemma split_slash_not_Nil: "split_slash p \<noteq> []"
  by (induction p) (auto split: list.splits)

lemma split_slash_append:
  "split_slash (a @ CHR ''/'' # b) = split_slash a @ split_slash b"
proof (induction a)
  case Nil
  show ?case by simp
next
  case (Cons c a)
  obtain s ss where "split_slash a = s # ss"
    using split_slash_not_Nil [of a] by (cases "split_slash a") auto
  with Cons show ?case by simp
qed

lemma split_slash_no_slash: "CHR ''/'' \<notin> set n \<Longrightarrow> split_slash n = [n]"
  by (induction n) auto

lemma split_slash_segments: "s \<in> set (split_slash p) \<Longrightarrow> CHR ''/'' \<notin> set s"
proof (induction p arbitrary: s)
  case Nil
  then show ?case by simp
next
  case (Cons c p)
  obtain t ts where ts: "split_slash p = t # ts"
    using split_slash_not_Nil [of p] by (cases "split_slash p") auto
  show ?case
  proof (cases "c = CHR ''/''")
    case True
    with Cons show ?thesis by auto
  next
    case False
    with Cons.prems ts have "s = c # t \<or> s \<in> set ts" by simp
    then show ?thesis
      using Cons.IH ts False by auto
  qed
qed

lemma normalizeString_append:
  "normalizeString a res (xs @ ys) = normalizeString a (normalizeString a res xs) ys"
proof (induction xs arbitrary: res)
  case Nil
  show ?case by simp
next
  case (Cons s ss)
  show ?case
    by (simp only: append_Cons normalizeString.simps Cons.IH) simp
qed

lemma normalizeString_valid:
  "list_all valid_name xs \<Longrightarrow> normalizeString a res xs = res @ xs"
  by (induction xs arbitrary: res) (auto simp: valid_name_def)

lemma list_all_butlast: "list_all P xs \<Longrightarrow> list_all P (butlast xs)"
  by (induction xs) auto

lemma normalizeString_False_valid:
  "list_all valid_name res \<Longrightarrow> \<forall>s\<in>set xs. CHR ''/'' \<notin> set s \<Longrightarrow>
   list_all valid_name (normalizeString False res xs)"
proof (induction xs arbitrary: res)
  case Nil
  then show ?case by simp
next
  case (Cons s ss)
  have "list_all valid_name (butlast res)"
    using Cons.prems(1) by (rule list_all_butlast)
  moreover have "s \<noteq> [] \<Longrightarrow> s \<noteq> ''.'' \<Longrightarrow> s \<noteq> ''..'' \<Longrightarrow> valid_name s"
    using Cons.prems(2) by (simp add: valid_name_def)
  ultimately show ?case
    using Cons by simp
qed

lemma resolve_segments_valid: "list_all valid_name (resolve_segments p)"
  unfolding resolve_segments_def
  by (rule normalizeString_False_valid) (auto dest: split_slash_segments)

lemma resolve_segments_child:
  assumes "valid_name n"
  shows "resolve_segments (d @ ''/'' @ n) = resolve_segments d @ [n]"
proof -
  have "split_slash (d @ ''/'' @ n) = split_slash d @ [n]"
    using assms by (simp add: split_slash_append split_slash_no_slash valid_name_def)
  moreover have "normalizeString False res [n] = res @ [n]" for res
    using assms normalizeString_valid [of "[n]" False res] by simp
  ultimately show ?thesis
    by (simp only: resolve_segments_def normalizeString_append)
qed

lemma join_slash_snoc:
  "join_slash (ds @ [n]) = (if ds = [] then n else join_slash ds @ ''/'' @ n)"
  by (induction ds rule: join_slash.induct) auto

lemma join_slash_Cons:
  "join_slash (s # ss) = (if ss = [] then s else s @ ''/'' @ join_slash ss)"
  by (cases ss) auto

lemma split_join_slash:
  "gs \<noteq> [] \<Longrightarrow> list_all valid_name gs \<Longrightarrow> split_slash (join_slash gs) = gs"
proof (induction gs rule: join_slash.induct)
  case 1
  then show ?case by simp
next
  case (2 s)
  then show ?case by (simp add: split_slash_no_slash valid_name_def)
next
  case (3 s t ss)
  then show ?case
    by (simp add: split_slash_append split_slash_no_slash valid_name_def)
qed

lemma resolve_segments_absolute:
  assumes "list_all valid_name gs"
  shows "resolve_segments (CHR ''/'' # join_slash gs) = gs"
proof (cases "gs = []")
  case True
  then show ?thesis by (simp add: resolve_segments_def)
next
  case False
  with assms have "split_slash (join_slash gs) = gs"
    by (simp add: split_join_slash)
  with assms show ?thesis
    using normalizeString_valid [of gs False "[]"] by (simp add: resolve_segments_def)
qed

lemma path_join_child:
  assumes "isAbsolute d" and "valid_name n"
  shows "path_join d n = CHR ''/'' # join_slash (resolve_segments d @ [n])"
proof -
  from assms have ne: "d \<noteq> []" "n \<noteq> []" and last: "last n \<noteq> CHR ''/''"
    by (auto simp: isAbsolute_def valid_name_def dest: last_in_set)
  have abs: "isAbsolute (d @ ''/'' @ n)"
    using assms(1) by (auto simp: isAbsolute_def)
  have segs: "normalizeString False [] (split_slash (d @ ''/'' @ n)) = resolve_segments d @ [n]"
    using resolve_segments_child [OF assms(2), of d] by (simp add: resolve_segments_def)
  show ?thesis
    using ne last abs segs by (simp add: path_join_def normalize_def)
qed

lemma path_join_child_absolute:
  "isAbsolute d \<Longrightarrow> valid_name n \<Longrightarrow> isAbsolute (path_join d n)"
  by (simp add: path_join_child) (simp add: isAbsolute_def)

lemma path_join_child_segments:
  assumes "isAbsolute d" and "valid_name n"
  shows "resolve_segments (path_join d n) = resolve_segments d @ [n]"
  using assms resolve_segments_valid [of d]
  by (simp add: path_join_child resolve_segments_absolute)

lemma common_length_append: "common_length bs (bs @ ds) = length bs"
  by (induction bs) auto

lemma path_relative_below:
  "resolve_segments f = resolve_segments b @ ds \<Longrightarrow> path_relative b f = join_slash ds"
  by (simp add: path_relative_def common_length_append)

lemma join_slash_empty:
  "list_all valid_name ds \<Longrightarrow> join_slash ds = [] \<longleftrightarrow> ds = []"
  by (induction ds rule: join_slash.induct) (auto simp: valid_name_def)

lemma path_relative_child:
  assumes "isAbsolute d" and "valid_name n"
    and "resolve_segments d = resolve_segments b @ ds"
  shows "path_relative b (path_join d n) = child_path (path_relative b d) n"
proof -
  have "list_all valid_name ds"
    using resolve_segments_valid [of d] assms(3) by simp
  then have e: "join_slash ds = [] \<longleftrightarrow> ds = []"
    by (rule join_slash_empty)
  have "resolve_segments (path_join d n) = resolve_segments b @ (ds @ [n])"
    using path_join_child_segments [OF assms(1,2)] assms(3) by simp
  then have "path_relative b (path_join d n) = join_slash (ds @ [n])"
    by (rule path_relative_below)
  moreover have "path_relative b d = join_slash ds"
    using assms(3) by (rule path_relative_below)
  ultimately show ?thesis
    using e by (auto simp: child_path_def join_slash_snoc)
qed


lemma below_child:
  assumes "isAbsolute d" and "prefix (resolve_segments b) (resolve_segments d)" and "valid_name n"
  shows "isAbsolute (path_join d n)"
    and "prefix (resolve_segments b) (resolve_segments (path_join d n))"
    and "path_relative b (path_join d n) = child_path (path_relative b d) n"
proof -
  from assms(2) obtain ds where ds: "resolve_segments d = resolve_segments b @ ds"
    by (auto simp: prefix_def)
  show "isAbsolute (path_join d n)"
    using assms(1,3) by (rule path_join_child_absolute)
  show "prefix (resolve_segments b) (resolve_segments (path_join d n))"
    using assms(1,3) ds by (simp add: path_join_child_segments)
  show "path_relative b (path_join d n) = child_path (path_relative b d) n"
    using assms(1,3) ds by (rule path_relative_child)
qed

lemma string_includes_eq: "string_includes p = (\<lambda>b. sublist b p)"
  by (rule ext) (simp add: string_includes_def)

lemma string_startsWith_eq: "string_startsWith p = (\<lambda>w. prefix w p)"
  by (rule ext) (simp add: string_startsWith_def)

lemma relativePaths_append:
  "relativePaths b (xs @ ys) = relativePaths b xs @ relativePaths b ys"
  by (simp add: relativePaths_def)

lemma scan_refines:
  "isAbsolute d \<Longrightarrow> prefix (resolve_segments b) (resolve_segments d) \<Longrightarrow> valid_names l \<Longrightarrow>
     (case getAllFiles d c b l of Inl e \<Rightarrow> None | Inr fs \<Rightarrow> Some (relativePaths b fs))
     = spec_scan c (path_relative b d) l"
  "isAbsolute d \<Longrightarrow> prefix (resolve_segments b) (resolve_segments d) \<Longrightarrow> valid_names_entries es \<Longrightarrow>
     (case getAllFiles_entries d c b files es of Inl e \<Rightarrow> None
      | Inr fs \<Rightarrow> Some (relativePaths b fs))
     = map_option (\<lambda>r. relativePaths b files @ r) (spec_scan_entries c (path_relative b d) es)"
proof (induction d c b l and d c b files es rule: getAllFiles_getAllFiles_entries.induct)
  case (1 dirPath config relativeBase)
  show ?case by simp
next
  case (2 dirPath config relativeBase entries)
  then show ?case by (simp add: relativePaths_def option.map_ident)
next
  case (3 dirPath config relativeBase files)
  show ?case by simp
next
  case (4 dirPath config relativeBase files name entries)
  from "4.prems" have n: "valid_name name" and es: "valid_names_entries entries"
    by simp_all
  note rel = below_child(3) [OF "4.prems"(1,2) n]
  show ?case
    using "4.IH" "4.prems"(1,2) es
    by (auto simp: rel Let_def spec_isEligible_def string_includes_eq string_startsWith_eq
        relativePaths_append relativePaths_def split: option.splits)
next
  case (5 dirPath config relativeBase files name listing entries)
  from "5.prems" have n: "valid_name name" and l: "valid_names listing"
    and es: "valid_names_entries entries"
    by simp_all
  note child = below_child [OF "5.prems"(1,2) n]
  let ?full = "path_join dirPath name"
  let ?rel = "child_path (path_relative relativeBase dirPath) name"
  let ?bl = "list_ex (\<lambda>b. string_includes ?rel b) (blacklist config)"
  have elig: "spec_isEligible ?rel True config = (\<not> ?bl)"
    by (simp add: spec_isEligible_def string_includes_eq)
  show ?case
  proof (cases ?bl)
    case True
    then show ?thesis
      using "5.IH"(1) [OF refl refl] "5.prems"(1,2) es elig
      by (simp add: child(3))
  next
    case False
    have sub: "(case getAllFiles ?full config relativeBase listing of Inl e \<Rightarrow> None
                | Inr fs \<Rightarrow> Some (relativePaths relativeBase fs))
               = spec_scan config ?rel listing"
      using "5.IH"(2) [OF refl refl _ child(1,2) l] False by (simp add: child(3))
    show ?thesis
    proof (cases "getAllFiles ?full config relativeBase listing")
      case (Inl e)
      with sub False elig show ?thesis
        by (simp add: child(3))
    next
      case (Inr subFiles)
      have rest: "(case getAllFiles_entries dirPath config relativeBase (files @ subFiles) entries of
                     Inl e \<Rightarrow> None | Inr fs \<Rightarrow> Some (relativePaths relativeBase fs))
                  = map_option (\<lambda>r. relativePaths relativeBase (files @ subFiles) @ r)
                      (spec_scan_entries config (path_relative relativeBase dirPath) entries)"
        using "5.IH"(3) [OF refl refl _ Inr "5.prems"(1,2) es] False by (simp add: child(3))
      from sub Inr have "spec_scan config ?rel listing = Some (relativePaths relativeBase subFiles)"
        by simp
      with rest Inr False elig show ?thesis
        by (cases "spec_scan_entries config (path_relative relativeBase dirPath) entries")
          (simp_all add: child(3) relativePaths_append)
    qed
  qed
qed

section \<open>The scan and the filter\<close>

lemma blacklisted_iff: "blacklisted c p \<longleftrightarrow> (\<exists>b\<in>set (blacklist c). sublist b p)"
  by (simp add: blacklisted_def string_includes_def list_ex_iff)

lemma whitelisted_iff: "whitelisted c p \<longleftrightarrow> (\<exists>w\<in>set (whitelist c). prefix w p)"
  by (simp add: whitelisted_def string_startsWith_def list_ex_iff)

lemma getAllFiles_not_blacklisted:
  "getAllFiles d c b l = Inr fs \<Longrightarrow> \<forall>f\<in>set fs. \<not> blacklisted c (path_relative b f)"
  "getAllFiles_entries d c b files es = Inr fs \<Longrightarrow>
     \<forall>f\<in>set files. \<not> blacklisted c (path_relative b f) \<Longrightarrow>
     \<forall>f\<in>set fs. \<not> blacklisted c (path_relative b f)"
proof (induction d c b l and d c b files es arbitrary: fs and fs
    rule: getAllFiles_getAllFiles_entries.induct)
  case (1 dirPath config relativeBase)
  then show ?case by simp
next
  case (2 dirPath config relativeBase entries)
  then show ?case by simp
next
  case (3 dirPath config relativeBase files)
  then show ?case by simp
next
  case (4 dirPath config relativeBase files name entries)
  let ?full = "path_join dirPath name"
  let ?rel = "path_relative relativeBase ?full"
  let ?wl = "length (whitelist config) > 0
              \<and> \<not> list_ex (\<lambda>w. string_startsWith ?rel w) (whitelist config)"
  show ?case
  proof (cases "blacklisted config ?rel")
    case True
    then show ?thesis
      using "4.IH"(1) [OF refl refl] "4.prems" by (simp add: blacklisted_def)
  next
    case False
    show ?thesis
    proof (cases ?wl)
      case True
      then show ?thesis
        using "4.IH"(2) [OF refl refl] "4.prems" False by (simp add: blacklisted_def)
    next
      case wl: False
      have "\<forall>f\<in>set (files @ [?full]). \<not> blacklisted config (path_relative relativeBase f)"
        using "4.prems"(2) False by simp
      moreover have "getAllFiles_entries dirPath config relativeBase (files @ [?full]) entries = Inr fs"
        using "4.prems"(1) False wl by (auto simp add: blacklisted_def Let_def)
      ultimately show ?thesis
        using "4.IH"(3) [OF refl refl] False wl by (simp add: blacklisted_def)
    qed
  qed
next
  case (5 dirPath config relativeBase files name listing entries)
  let ?full = "path_join dirPath name"
  show ?case
  proof (cases "blacklisted config (path_relative relativeBase ?full)")
    case True
    then show ?thesis
      using "5.IH"(1) [OF refl refl] "5.prems" by (simp add: blacklisted_def)
  next
    case False
    then obtain subFiles where sub: "getAllFiles ?full config relativeBase listing = Inr subFiles"
      and rest: "getAllFiles_entries dirPath config relativeBase (files @ subFiles) entries = Inr fs"
      using "5.prems"(1) by (auto simp: blacklisted_def split: sum.splits)
    have "\<forall>f\<in>set subFiles. \<not> blacklisted config (path_relative relativeBase f)"
      using "5.IH"(2) [OF refl refl _ sub] False by (simp add: blacklisted_def)
    then have "\<forall>f\<in>set (files @ subFiles). \<not> blacklisted config (path_relative relativeBase f)"
      using "5.prems"(2) by auto
    then show ?thesis
      using "5.IH"(3) [OF refl refl _ sub rest] False by (simp add: blacklisted_def)
  qed
qed

lemma child_path_prefix: "prefix rel (child_path rel n)"
  by (simp add: child_path_def)

lemma all_files_prefix:
  "p \<in> set (all_files rel l) \<Longrightarrow> prefix rel p"
  "p \<in> set (all_files_entries rel es) \<Longrightarrow> prefix rel p"
proof (induction rel l and rel es rule: all_files_all_files_entries.induct)
  case (5 rel name listing entries)
  then show ?case
    using child_path_prefix [of rel name] by (auto intro: prefix_order.trans)
qed (auto simp: child_path_prefix)

lemma blacklisted_below:
  assumes "blacklisted c rel" and "prefix rel p"
  shows "blacklisted c p"
proof -
  from assms(1) obtain b where b: "b \<in> set (blacklist c)" "sublist b rel"
    by (auto simp: blacklisted_iff)
  from assms(2) have "sublist rel p"
    by (rule prefix_imp_sublist)
  with b(2) have "sublist b p"
    by (rule sublist_order.order_trans)
  with b(1) show ?thesis
    by (auto simp: blacklisted_iff)
qed

lemma blacklisted_subtree:
  "blacklisted c rel \<Longrightarrow> filter (admitted c) (all_files rel l) = []"
  by (auto simp: filter_empty_conv admitted_def dest: all_files_prefix(1) blacklisted_below)

lemma spec_isEligible_file: "spec_isEligible p False c = admitted c p"
  by (auto simp: spec_isEligible_def admitted_def blacklisted_def whitelisted_def
      string_includes_eq string_startsWith_eq)

lemma spec_isEligible_dir: "spec_isEligible p True c = (\<not> blacklisted c p)"
  by (auto simp: spec_isEligible_def blacklisted_def string_includes_eq)

lemma spec_scan_filter:
  "spec_scan c rel l = Some r \<Longrightarrow> r = filter (admitted c) (all_files rel l)"
  "spec_scan_entries c rel es = Some r \<Longrightarrow> r = filter (admitted c) (all_files_entries rel es)"
proof (induction c rel l and c rel es arbitrary: r and r rule: spec_scan_spec_scan_entries.induct)
  case (4 rules rel name entries)
  then show ?case
    by (auto simp: spec_isEligible_file split: option.splits)
next
  case (5 rules rel name listing entries)
  show ?case
  proof (cases "blacklisted rules (child_path rel name)")
    case True
    then show ?thesis
      using "5.IH"(3) "5.prems" by (simp add: spec_isEligible_dir blacklisted_subtree)
  next
    case False
    then obtain sub rest where sub: "spec_scan rules (child_path rel name) listing = Some sub"
      and rest: "spec_scan_entries rules rel entries = Some rest" and r: "r = sub @ rest"
      using "5.prems" by (auto simp: spec_isEligible_dir split: option.splits)
    from False have e: "spec_isEligible (child_path rel name) True rules"
      by (simp add: spec_isEligible_dir)
    show ?thesis
      using "5.IH"(1) [OF e sub] "5.IH"(2) [OF e sub rest] r by simp
  qed
qed simp_all

section \<open>Properties of the scan\<close>

text \<open>
  C1: blacklist precedence.  For every configuration and every relative path, if a
  blacklist entry is a substring of the path, the path is not in the candidate set,
  whatever the whitelist says about it.
\<close>

theorem blacklist_precedence:
  assumes "getAllFiles cwd config cwd tree = Inr allFiles"
    and "blacklisted config p"
  shows "p \<notin> set (relativePaths cwd allFiles)"
  using getAllFiles_not_blacklisted(1) [OF assms(1)] assms(2)
  by (auto simp: relativePaths_def)

theorem blacklist_precedence_witness:
  "getAllFiles ''/p'' \<lparr>whitelist = [''src''], blacklist = [''node_modules'']\<rparr> ''/p''
     (Some [DirEntry ''src'' (Some [DirEntry ''node_modules'' (Some [FileEntry ''x.js'']),
                                    FileEntry ''app.js''])])
   = Inr [''/p/src/app.js'']
   \<and> blacklisted \<lparr>whitelist = [''src''], blacklist = [''node_modules'']\<rparr> ''src/node_modules/x.js''
   \<and> whitelisted \<lparr>whitelist = [''src''], blacklist = [''node_modules'']\<rparr> ''src/node_modules/x.js''
   \<and> ''src/node_modules/x.js'' \<notin> set (relativePaths ''/p'' [''/p/src/app.js''])"
proof -
  let ?c = "\<lparr>whitelist = [''src''], blacklist = [''node_modules'']\<rparr>"
  have g: "getAllFiles ''/p'' ?c ''/p''
     (Some [DirEntry ''src'' (Some [DirEntry ''node_modules'' (Some [FileEntry ''x.js'']),
                                    FileEntry ''app.js''])])
   = Inr [''/p/src/app.js'']"
    by code_simp
  have b: "blacklisted ?c ''src/node_modules/x.js''"
    by code_simp
  have w: "whitelisted ?c ''src/node_modules/x.js''"
    by code_simp
  from g b w blacklist_precedence [OF g b] show ?thesis
    by (intro conjI)
qed

text \<open>
  C2: whitelist prefix semantics.  The candidate set consists of exactly those files of the
  tree, in order, whose own relative path contains no blacklist entry and, when the
  whitelist is non-empty, starts with a whitelist entry.  A directory is judged by the
  blacklist alone, so a file below a directory that matches no whitelist prefix is still
  found; with an empty whitelist every file that is not blacklisted is included.  In the
  instances below the whitelist \<open>src\<close> admits \<open>src/app.js\<close> and rejects \<open>lib/app.js\<close>,
  and the whitelist \<open>lib/in\<close> admits \<open>lib/in/x.js\<close>, found below the directory
  \<open>lib\<close>.
\<close>

theorem whitelist_prefix_semantics:
  assumes "isAbsolute cwd" and "valid_names tree"
    and "getAllFiles cwd config cwd tree = Inr allFiles"
  shows "relativePaths cwd allFiles = filter (admitted config) (all_files [] tree)"
proof -
  have "path_relative cwd cwd = []"
    using path_relative_below [of cwd cwd "[]"] by simp
  then have "spec_scan config [] tree = Some (relativePaths cwd allFiles)"
    using scan_refines(1) [OF assms(1) _ assms(2), of cwd config] assms(3) by simp
  then show ?thesis
    by (rule spec_scan_filter(1))
qed

theorem whitelist_prefix_semantics_witness:
  "isAbsolute ''/p''
   \<and> valid_names (Some [DirEntry ''lib'' (Some [FileEntry ''app.js'',
                                                  DirEntry ''in'' (Some [FileEntry ''x.js''])]),
                        DirEntry ''src'' (Some [FileEntry ''app.js''])])
   \<and> getAllFiles ''/p'' \<lparr>whitelist = [''src''], blacklist = []\<rparr> ''/p''
         (Some [DirEntry ''lib'' (Some [FileEntry ''app.js'',
                                        DirEntry ''in'' (Some [FileEntry ''x.js''])]),
                DirEntry ''src'' (Some [FileEntry ''app.js''])])
       = Inr [''/p/src/app.js'']
   \<and> relativePaths ''/p'' [''/p/src/app.js''] = [''src/app.js'']
   \<and> filter (admitted \<lparr>whitelist = [''src''], blacklist = []\<rparr>)
         [''lib/app.js'', ''lib/in/x.js'', ''src/app.js''] = [''src/app.js'']
   \<and> getAllFiles ''/p'' \<lparr>whitelist = [''lib/in''], blacklist = []\<rparr> ''/p''
         (Some [DirEntry ''lib'' (Some [FileEntry ''app.js'',
                                        DirEntry ''in'' (Some [FileEntry ''x.js''])]),
                DirEntry ''src'' (Some [FileEntry ''app.js''])])
       = Inr [''/p/lib/in/x.js'']
   \<and> relativePaths ''/p'' [''/p/lib/in/x.js''] = [''lib/in/x.js'']
   \<and> filter (admitted \<lparr>whitelist = [''lib/in''], blacklist = []\<rparr>)
         [''lib/app.js'', ''lib/in/x.js'', ''src/app.js''] = [''lib/in/x.js'']"
proof -
  let ?c = "\<lparr>whitelist = [''src''], blacklist = []\<rparr>"
  let ?d = "\<lparr>whitelist = [''lib/in''], blacklist = []\<rparr>"
  let ?t = "Some [DirEntry ''lib'' (Some [FileEntry ''app.js'',
                                         DirEntry ''in'' (Some [FileEntry ''x.js''])]),
                  DirEntry ''src'' (Some [FileEntry ''app.js''])]"
  have a: "isAbsolute ''/p''"
    by (simp add: isAbsolute_def)
  have v: "valid_names ?t"
    by (simp add: valid_name_def)
  have g: "getAllFiles ''/p'' ?c ''/p'' ?t = Inr [''/p/src/app.js'']"
    by code_simp
  have h: "getAllFiles ''/p'' ?d ''/p'' ?t = Inr [''/p/lib/in/x.js'']"
    by code_simp
  have r: "relativePaths ''/p'' [''/p/src/app.js''] = [''src/app.js'']"
    "relativePaths ''/p'' [''/p/lib/in/x.js''] = [''lib/in/x.js'']"
    by code_simp+
  have f: "all_files [] ?t = [''lib/app.js'', ''lib/in/x.js'', ''src/app.js'']"
    by code_simp
  from a v g h r whitelist_prefix_semantics [OF a v g] whitelist_prefix_semantics [OF a v h]
  show ?thesis
    unfolding f by simp
qed

text \<open>
  C3: for every directory tree and configuration, the scan answers the candidate set as the
  concatenation of all eligible file paths, each relative to the scan root, depth-first in
  the enumeration order of the directories, every subtree's result in the place of its
  directory entry; the scan fails exactly when an eligible directory cannot be read.
\<close>

theorem scan_depth_first_concatenation:
  assumes "isAbsolute cwd" and "valid_names tree"
  shows "(case getAllFiles cwd config cwd tree of
            Inl e \<Rightarrow> None
          | Inr allFiles \<Rightarrow> Some (relativePaths cwd allFiles))
         = spec_scan config [] tree"
proof -
  have "path_relative cwd cwd = []"
    using path_relative_below [of cwd cwd "[]"] by simp
  then show ?thesis
    using scan_refines(1) [OF assms(1) _ assms(2), of cwd config] by simp
qed

theorem scan_depth_first_concatenation_witness:
  "isAbsolute ''/p''
   \<and> valid_names (Some [DirEntry ''.git'' None,
                        DirEntry ''lib'' (Some [FileEntry ''b.js'', FileEntry ''a.js'']),
                        FileEntry ''z.txt'',
                        DirEntry ''src'' (Some [DirEntry ''in'' (Some [FileEntry ''c.js''])])])
   \<and> getAllFiles ''/p'' \<lparr>whitelist = [], blacklist = [''.git'']\<rparr> ''/p''
         (Some [DirEntry ''.git'' None,
                DirEntry ''lib'' (Some [FileEntry ''b.js'', FileEntry ''a.js'']),
                FileEntry ''z.txt'',
                DirEntry ''src'' (Some [DirEntry ''in'' (Some [FileEntry ''c.js''])])])
       = Inr [''/p/lib/b.js'', ''/p/lib/a.js'', ''/p/z.txt'', ''/p/src/in/c.js'']
   \<and> spec_scan \<lparr>whitelist = [], blacklist = [''.git'']\<rparr> []
         (Some [DirEntry ''.git'' None,
                DirEntry ''lib'' (Some [FileEntry ''b.js'', FileEntry ''a.js'']),
                FileEntry ''z.txt'',
                DirEntry ''src'' (Some [DirEntry ''in'' (Some [FileEntry ''c.js''])])])
       = Some [''lib/b.js'', ''lib/a.js'', ''z.txt'', ''src/in/c.js'']
   \<and> relativePaths ''/p'' [''/p/lib/b.js'', ''/p/lib/a.js'', ''/p/z.txt'', ''/p/src/in/c.js'']
       = [''lib/b.js'', ''lib/a.js'', ''z.txt'', ''src/in/c.js'']"
proof -
  let ?c = "\<lparr>whitelist = [], blacklist = [''.git'']\<rparr>"
  let ?tree = "Some [DirEntry ''.git'' None,
                     DirEntry ''lib'' (Some [FileEntry ''b.js'', FileEntry ''a.js'']),
                     FileEntry ''z.txt'',
                     DirEntry ''src'' (Some [DirEntry ''in'' (Some [FileEntry ''c.js''])])]"
  have a: "isAbsolute ''/p''"
    by (simp add: isAbsolute_def)
  have v: "valid_names ?tree"
    by (simp add: valid_name_def)
  have g: "getAllFiles ''/p'' ?c ''/p'' ?tree
           = Inr [''/p/lib/b.js'', ''/p/lib/a.js'', ''/p/z.txt'', ''/p/src/in/c.js'']"
    by code_simp
  have s: "spec_scan ?c [] ?tree = Some [''lib/b.js'', ''lib/a.js'', ''z.txt'', ''src/in/c.js'']"
    by code_simp
  from a v g s scan_depth_first_concatenation [OF a v, of ?c] show ?thesis
    by simp
qed

section \<open>The filename derivation, step by step\<close>

lemma of_char_shift:
  assumes "n \<le> 222"
  shows "(of_char (char_of (n + 32 :: nat)) :: nat) = n + 32"
proof -
  have "(n + 32) mod 256 = n + 32"
    using assms by simp
  then show ?thesis
    by (simp only: of_char_of)
qed

lemma toLowerCase_unit_code:
  "(of_char (toLowerCase_unit c) :: nat) =
     (if (65 \<le> (of_char c :: nat) \<and> (of_char c :: nat) \<le> 90)
         \<or> (192 \<le> (of_char c :: nat) \<and> (of_char c :: nat) \<le> 222 \<and> (of_char c :: nat) \<noteq> 215)
      then of_char c + 32 else of_char c)"
proof -
  define n where "n = (of_char c :: nat)"
  show ?thesis
  proof (cases "(65 \<le> n \<and> n \<le> 90) \<or> (192 \<le> n \<and> n \<le> 222 \<and> n \<noteq> 215)")
    case True
    then have "n \<le> 222" by auto
    then have "(of_char (char_of (n + 32)) :: nat) = n + 32"
      by (rule of_char_shift)
    with True show ?thesis
      unfolding toLowerCase_unit_def Let_def n_def by (simp only: if_True)
  next
    case False
    then show ?thesis
      unfolding toLowerCase_unit_def Let_def n_def by (simp only: if_False)
  qed
qed

lemma toLowerCase_unit_az09: "in_az09 (toLowerCase_unit c) = ascii_alnum c"
  unfolding in_az09_def ascii_alnum_def Let_def toLowerCase_unit_code
  by (simp only: split: if_split) arith

lemma toLowerCase_unit_alnum: "ascii_alnum (toLowerCase_unit c) = in_az09 (toLowerCase_unit c)"
  unfolding in_az09_def ascii_alnum_def Let_def toLowerCase_unit_code
  by (simp only: split: if_split) arith


lemma collapse_non_alnum:
  "\<not> ascii_alnum c \<Longrightarrow>
   spec_collapse_runs (c # cs) = CHR ''-'' # spec_collapse_runs (dropWhile (\<lambda>d. \<not> ascii_alnum d) cs)"
  by (induction cs arbitrary: c) auto

lemma collapse_alnum:
  "ascii_alnum c \<Longrightarrow> spec_collapse_runs (c # cs) = c # spec_collapse_runs cs"
  by (cases cs) simp_all

lemma replace_non_az09_collapse:
  "\<forall>c\<in>set s. in_az09 c = ascii_alnum c \<Longrightarrow> replace_non_az09 s = spec_collapse_runs s"
proof (induction s rule: replace_non_az09.induct)
  case 1
  show ?case by simp
next
  case (2 c cs)
  show ?case
  proof (cases "in_az09 c")
    case True
    have a: "ascii_alnum c" using "2.prems" True by simp
    have "replace_non_az09 cs = spec_collapse_runs cs"
      using "2.IH"(1) [OF True] "2.prems" by simp
    then show ?thesis
      using True by (simp only: replace_non_az09.simps collapse_alnum [OF a] if_True)
  next
    case False
    have na: "\<not> ascii_alnum c" using "2.prems" False by simp
    have d: "dropWhile (\<lambda>d. \<not> in_az09 d) cs = dropWhile (\<lambda>d. \<not> ascii_alnum d) cs"
      using "2.prems" by (intro dropWhile_cong) simp_all
    have "\<forall>c\<in>set (dropWhile (\<lambda>d. \<not> in_az09 d) cs). in_az09 c = ascii_alnum c"
      using "2.prems" by (auto dest: set_dropWhileD)
    then have "replace_non_az09 (dropWhile (\<lambda>d. \<not> in_az09 d) cs)
               = spec_collapse_runs (dropWhile (\<lambda>d. \<not> in_az09 d) cs)"
      by (rule "2.IH"(2) [OF False])
    then show ?thesis
      using False by (simp only: replace_non_az09.simps collapse_non_alnum [OF na] d if_False)
  qed
qed



lemma replace_trailing_dashes_all:
  "list_all (\<lambda>d. d = CHR ''-'') cs \<Longrightarrow> replace_trailing_dashes cs = []"
  by (cases cs) auto

lemma replace_trailing_dashes_rev:
  "replace_trailing_dashes t = rev (dropWhile (\<lambda>c. c = CHR ''-'') (rev t))"
proof (induction t)
  case Nil
  show ?case by simp
next
  case (Cons c cs)
  show ?case
  proof (cases "list_all (\<lambda>d. d = CHR ''-'') cs")
    case True
    then have m: "x = CHR ''-''" if "x \<in> set (rev cs)" for x
      using that by (simp add: list_all_iff)
    have "dropWhile (\<lambda>c. c = CHR ''-'') (rev cs @ [c]) = dropWhile (\<lambda>c. c = CHR ''-'') [c]"
      by (rule dropWhile_append2) (rule m)
    then show ?thesis
      using True by (simp add: replace_trailing_dashes_all)
  next
    case False
    then obtain x where "x \<in> set (rev cs)" "x \<noteq> CHR ''-''"
      by (auto simp: list_all_iff)
    then have "dropWhile (\<lambda>c. c = CHR ''-'') (rev cs @ [c])
               = dropWhile (\<lambda>c. c = CHR ''-'') (rev cs) @ [c]"
      by (rule dropWhile_append1)
    then show ?thesis
      using False Cons.IH by simp
  qed
qed

lemma replace_edge_dashes_strip: "replace_edge_dashes s = spec_strip_dashes s"
  by (simp add: replace_edge_dashes_def spec_strip_dashes_def replace_trailing_dashes_rev)

lemma toLowerCase_classes: "\<forall>c\<in>set (toLowerCase p). in_az09 c = ascii_alnum c"
  by (auto simp: toLowerCase_def toLowerCase_unit_alnum)

lemma generateFilename_refines: "generateFilenameFromPrompt prompt = spec_deriveFilename prompt"
  using replace_non_az09_collapse [OF toLowerCase_classes, of prompt]
  by (simp add: generateFilenameFromPrompt_def spec_deriveFilename_def replace_edge_dashes_strip Let_def)

lemma replace_non_az09_prefix:
  "\<forall>c\<in>set xs. in_az09 c \<Longrightarrow> replace_non_az09 (xs @ ys) = xs @ replace_non_az09 ys"
  by (induction xs) simp_all

lemma replace_non_az09_id: "\<forall>c\<in>set xs. in_az09 c \<Longrightarrow> replace_non_az09 xs = xs"
  using replace_non_az09_prefix [of xs "[]"] by simp

lemma dropWhile_none: "\<forall>c\<in>set xs. P c \<Longrightarrow> dropWhile P xs = []"
  by (induction xs) simp_all

lemma replace_non_az09_run:
  "s \<noteq> [] \<Longrightarrow> \<forall>c\<in>set s. \<not> in_az09 c \<Longrightarrow> replace_non_az09 s = ''-''"
  by (cases s) (simp_all add: dropWhile_none)

lemma in_az09_not_dash: "in_az09 c \<Longrightarrow> c \<noteq> CHR ''-''"
  by (auto simp: in_az09_def)

lemma replace_trailing_dashes_prefix:
  "\<forall>c\<in>set xs. c \<noteq> CHR ''-'' \<Longrightarrow>
   replace_trailing_dashes (xs @ zs) = xs @ replace_trailing_dashes zs"
  by (induction xs) simp_all

lemma replace_edge_dashes_prefix:
  assumes "xs \<noteq> []" and "\<forall>c\<in>set xs. c \<noteq> CHR ''-''"
  shows "replace_edge_dashes (xs @ zs) = xs @ replace_trailing_dashes zs"
proof -
  from assms obtain x xs' where "xs = x # xs'" "x \<noteq> CHR ''-''"
    by (cases xs) auto
  then have "dropWhile (\<lambda>c. c = CHR ''-'') (xs @ zs) = xs @ zs"
    by simp
  then show ?thesis
    using assms(2) by (simp add: replace_edge_dashes_def replace_trailing_dashes_prefix)
qed

lemma toLowerCase_append: "toLowerCase (xs @ ys) = toLowerCase xs @ toLowerCase ys"
  by (simp add: toLowerCase_def)

lemma toLowerCase_az09: "list_all ascii_alnum xs \<Longrightarrow> \<forall>c\<in>set (toLowerCase xs). in_az09 c"
  by (auto simp: toLowerCase_def toLowerCase_unit_az09 list_all_iff)

lemma dropWhile_id: "\<forall>c\<in>set xs. \<not> P c \<Longrightarrow> dropWhile P xs = xs"
  by (cases xs) simp_all

lemma generateFilename_no_alnum:
  assumes "s \<noteq> []" and "list_all (\<lambda>c. \<not> ascii_alnum c) s"
  shows "generateFilenameFromPrompt s = ''prompt''"
proof -
  have "toLowerCase s \<noteq> []"
    using assms(1) by (simp add: toLowerCase_def)
  moreover have "\<forall>c\<in>set (toLowerCase s). \<not> in_az09 c"
    using assms(2) by (auto simp: toLowerCase_def toLowerCase_unit_az09 list_all_iff)
  ultimately have "replace_non_az09 (toLowerCase s) = ''-''"
    by (rule replace_non_az09_run)
  then show ?thesis
    by (simp add: generateFilenameFromPrompt_def replace_edge_dashes_def)
qed

lemma base_separator:
  assumes "xs \<noteq> []" and "list_all ascii_alnum xs" and "\<not> ascii_alnum c"
    and "ys \<noteq> []" and "list_all ascii_alnum ys"
  shows "replace_edge_dashes (replace_non_az09 (toLowerCase (xs @ c # ys)))
         = toLowerCase xs @ CHR ''-'' # toLowerCase ys"
proof -
  let ?lx = "toLowerCase xs" and ?ly = "toLowerCase ys"
  have lx: "?lx \<noteq> []" "\<forall>c\<in>set ?lx. in_az09 c"
    using assms(1) toLowerCase_az09 [OF assms(2)] by (simp_all add: toLowerCase_def)
  have ly: "?ly \<noteq> []" "\<forall>c\<in>set ?ly. in_az09 c"
    using assms(4) toLowerCase_az09 [OF assms(5)] by (simp_all add: toLowerCase_def)
  have lc: "\<not> in_az09 (toLowerCase_unit c)"
    using assms(3) by (simp add: toLowerCase_unit_az09)
  have split: "toLowerCase (xs @ c # ys) = ?lx @ toLowerCase_unit c # ?ly"
    by (simp add: toLowerCase_def)
  have "dropWhile (\<lambda>d. \<not> in_az09 d) ?ly = ?ly"
    using ly(2) by (intro dropWhile_id) simp
  then have "replace_non_az09 (toLowerCase_unit c # ?ly) = CHR ''-'' # ?ly"
    using lc ly(2) by (simp add: replace_non_az09_id)
  then have r: "replace_non_az09 (toLowerCase (xs @ c # ys)) = ?lx @ CHR ''-'' # ?ly"
    using lx(2) by (simp add: split replace_non_az09_prefix)
  have ndx: "\<forall>c\<in>set ?lx. c \<noteq> CHR ''-''" and ndy: "\<forall>c\<in>set ?ly. c \<noteq> CHR ''-''"
    using lx(2) ly(2) by (auto dest: in_az09_not_dash)
  have "\<not> list_all (\<lambda>d. d = CHR ''-'') ?ly"
    using ly(1) ndy by (cases ?ly) auto
  moreover have "replace_trailing_dashes ?ly = ?ly"
    using replace_trailing_dashes_prefix [OF ndy, of "[]"] by simp
  ultimately have "replace_trailing_dashes (CHR ''-'' # ?ly) = CHR ''-'' # ?ly"
    by simp
  then show ?thesis
    using replace_edge_dashes_prefix [OF lx(1) ndx, of "CHR ''-'' # ?ly"] r by simp
qed

lemma toLowerCase_unit_examples:
  "toLowerCase_unit CHR ''a'' = CHR ''a''" "toLowerCase_unit CHR ''b'' = CHR ''b''"
  "toLowerCase_unit CHR ''Q'' = CHR ''q''"
  by code_simp+

lemma ascii_alnum_examples:
  "ascii_alnum CHR ''a''" "ascii_alnum CHR ''b''" "ascii_alnum CHR ''Q''"
  "\<not> ascii_alnum CHR ''!''" "\<not> ascii_alnum CHR '' ''"
  by code_simp+

section \<open>Properties of the filename derivation\<close>

text \<open>
  C7: the filename derivation is a function of the prompt alone, and it is the derivation
  the specification words: lowercase, every maximal run of non-alphanumeric characters
  replaced by one \<open>-\<close>, leading and trailing \<open>-\<close> stripped, at most 50 characters kept,
  \<open>prompt\<close> when nothing is left.  It maps \<open>Hello, World!!!\<close> to \<open>hello-world\<close> and three
  spaces to \<open>prompt\<close>.
\<close>

theorem filename_examples_refinement:
  "generateFilenameFromPrompt prompt = spec_deriveFilename prompt
   \<and> generateFilenameFromPrompt ''Hello, World!!!'' = ''hello-world''
   \<and> generateFilenameFromPrompt ''   '' = ''prompt''"
proof -
  have "generateFilenameFromPrompt ''Hello, World!!!'' = ''hello-world''"
    by code_simp
  moreover have "generateFilenameFromPrompt ''   '' = ''prompt''"
    by code_simp
  ultimately show ?thesis
    using generateFilename_refines [of prompt] by simp
qed

text \<open>
  A prompt of 200 spaces derives \<open>prompt\<close>, which has 6 characters; a prompt of 49 letters,
  one \<open>!\<close> and 150 letters derives 50 characters that end with \<open>-\<close>, because the
  truncation comes after the stripping.
\<close>

theorem truncation_counterexample:
  "length (replicate 200 CHR '' '') = 200
   \<and> generateFilenameFromPrompt (replicate 200 CHR '' '') = ''prompt''
   \<and> length (generateFilenameFromPrompt (replicate 200 CHR '' '')) \<noteq> 50
   \<and> length (replicate 49 CHR ''a'' @ CHR ''!'' # replicate 150 CHR ''b'') = 200
   \<and> generateFilenameFromPrompt (replicate 49 CHR ''a'' @ CHR ''!'' # replicate 150 CHR ''b'')
       = replicate 49 CHR ''a'' @ ''-''
   \<and> last (generateFilenameFromPrompt (replicate 49 CHR ''a'' @ CHR ''!'' # replicate 150 CHR ''b''))
       = CHR ''-''"
proof -
  have one: "generateFilenameFromPrompt (replicate 200 CHR '' '') = ''prompt''"
    by (rule generateFilename_no_alnum) (simp_all add: list_all_iff ascii_alnum_examples)
  have base: "replace_edge_dashes (replace_non_az09
                (toLowerCase (replicate 49 CHR ''a'' @ CHR ''!'' # replicate 150 CHR ''b'')))
              = toLowerCase (replicate 49 CHR ''a'') @ CHR ''-'' # toLowerCase (replicate 150 CHR ''b'')"
    by (rule base_separator) (simp_all add: list_all_iff ascii_alnum_examples)
  have two: "generateFilenameFromPrompt (replicate 49 CHR ''a'' @ CHR ''!'' # replicate 150 CHR ''b'')
             = replicate 49 CHR ''a'' @ ''-''"
    unfolding generateFilenameFromPrompt_def base
    by (simp add: toLowerCase_def toLowerCase_unit_examples)
  show ?thesis
    unfolding one two by simp
qed

lemma not_az09_dash: "\<not> in_az09 CHR ''-''"
  using in_az09_not_dash [of "CHR ''-''"] by blast

lemma filter_dropWhile_other:
  "(\<And>x. Q x \<Longrightarrow> \<not> P x) \<Longrightarrow> filter P (dropWhile Q xs) = filter P xs"
  by (induction xs) simp_all

lemma filter_az09_replace: "filter in_az09 (replace_non_az09 s) = filter in_az09 s"
proof (induction s rule: replace_non_az09.induct)
  case 1
  show ?case by simp
next
  case (2 c cs)
  show ?case
  proof (cases "in_az09 c")
    case True
    then show ?thesis
      using "2.IH"(1) by simp
  next
    case False
    have "filter in_az09 (dropWhile (\<lambda>d. \<not> in_az09 d) cs) = filter in_az09 cs"
      by (rule filter_dropWhile_other) simp
    then show ?thesis
      using False "2.IH"(2) [OF False] by (simp add: not_az09_dash)
  qed
qed

lemma filter_az09_strip: "filter in_az09 (spec_strip_dashes t) = filter in_az09 t"
proof -
  have d: "filter in_az09 (dropWhile (\<lambda>c. c = CHR ''-'') xs) = filter in_az09 xs" for xs
    by (rule filter_dropWhile_other) (simp add: not_az09_dash)
  have "filter in_az09 (spec_strip_dashes t)
        = rev (filter in_az09 (dropWhile (\<lambda>c. c = CHR ''-'') (rev (dropWhile (\<lambda>c. c = CHR ''-'') t))))"
    by (simp only: spec_strip_dashes_def rev_filter)
  also have "\<dots> = rev (filter in_az09 (rev (dropWhile (\<lambda>c. c = CHR ''-'') t)))"
    by (simp only: d)
  also have "\<dots> = filter in_az09 (dropWhile (\<lambda>c. c = CHR ''-'') t)"
    by (simp only: rev_filter [symmetric] rev_rev_ident)
  also have "\<dots> = filter in_az09 t"
    by (rule d)
  finally show ?thesis .
qed

lemma spec_sanitised_eq:
  "spec_sanitised prompt = replace_edge_dashes (replace_non_az09 (toLowerCase prompt))"
  using replace_non_az09_collapse [OF toLowerCase_classes, of prompt]
  by (simp add: spec_sanitised_def replace_edge_dashes_strip)

lemma filter_az09_toLowerCase:
  "filter in_az09 (toLowerCase p) = toLowerCase (filter ascii_alnum p)"
  by (induction p) (simp_all add: toLowerCase_def toLowerCase_unit_az09)

lemma sanitised_keeps_alnum:
  "length (filter ascii_alnum prompt) \<le> length (spec_sanitised prompt)"
proof -
  have "filter in_az09 (spec_sanitised prompt) = toLowerCase (filter ascii_alnum prompt)"
    by (simp only: spec_sanitised_eq replace_edge_dashes_strip filter_az09_strip
        filter_az09_replace filter_az09_toLowerCase)
  then have "length (filter ascii_alnum prompt) = length (filter in_az09 (spec_sanitised prompt))"
    by (simp add: toLowerCase_def)
  then show ?thesis
    by (simp only: length_filter_le)
qed

lemma sanitised_last:
  assumes "spec_sanitised prompt \<noteq> []"
  shows "last (spec_sanitised prompt) \<noteq> CHR ''-''"
proof -
  define ys where
    "ys = dropWhile (\<lambda>c. c = CHR ''-'')
            (rev (dropWhile (\<lambda>c. c = CHR ''-'') (spec_collapse_runs (toLowerCase prompt))))"
  have s: "spec_sanitised prompt = rev ys"
    by (simp add: spec_sanitised_def spec_strip_dashes_def ys_def)
  with assms have ne: "ys \<noteq> []"
    by simp
  then have "hd ys \<noteq> CHR ''-''"
    unfolding ys_def by (rule hd_dropWhile)
  then show ?thesis
    using ne by (simp add: s last_rev)
qed

lemma generateFilename_sanitised:
  "generateFilenameFromPrompt prompt
   = (if spec_sanitised prompt = [] then ''prompt'' else take 50 (spec_sanitised prompt))"
  by (simp add: generateFilename_refines spec_deriveFilename_def spec_sanitised_def Let_def)

text \<open>
  C8, as amended: for every prompt of 200 characters the derived filename is the first 50
  characters of the sanitised form of the prompt (lowercase, runs collapsed, edge dashes
  stripped), or \<open>prompt\<close> when that form is empty.  It is exactly 50 characters long if and
  only if the sanitised form has at least 50 characters, which it has whenever the prompt
  contains at least 50 ASCII letters or digits; it ends with \<open>-\<close> if and only if the
  sanitised form is longer than 50 characters and its 50th character is \<open>-\<close>.
\<close>

theorem truncated_filename_length:
  assumes "length prompt = 200"
  shows "generateFilenameFromPrompt prompt
           = (if spec_sanitised prompt = [] then ''prompt'' else take 50 (spec_sanitised prompt))
         \<and> (length (generateFilenameFromPrompt prompt) = 50
              \<longleftrightarrow> 50 \<le> length (spec_sanitised prompt))
         \<and> (50 \<le> length (filter ascii_alnum prompt)
              \<longrightarrow> length (generateFilenameFromPrompt prompt) = 50)
         \<and> (last (generateFilenameFromPrompt prompt) = CHR ''-''
              \<longleftrightarrow> 50 < length (spec_sanitised prompt) \<and> spec_sanitised prompt ! 49 = CHR ''-'')"
proof -
  let ?b = "spec_sanitised prompt"
  note g = generateFilename_sanitised [of prompt]
  have len: "length (generateFilenameFromPrompt prompt) = 50 \<longleftrightarrow> 50 \<le> length ?b"
    by (cases "?b = []") (auto simp: g)
  have alnum: "length (generateFilenameFromPrompt prompt) = 50"
    if "50 \<le> length (filter ascii_alnum prompt)"
    using that sanitised_keeps_alnum [of prompt] len by simp
  have dash: "last (generateFilenameFromPrompt prompt) = CHR ''-''
              \<longleftrightarrow> 50 < length ?b \<and> ?b ! 49 = CHR ''-''"
  proof (cases "?b = []")
    case True
    then show ?thesis by (simp add: g)
  next
    case ne: False
    show ?thesis
    proof (cases "50 < length ?b")
      case True
      then have "take (Suc 49) ?b = take 49 ?b @ [?b ! 49]"
        by (intro take_Suc_conv_app_nth) simp
      then have "last (take 50 ?b) = ?b ! 49"
        by simp
      with True ne show ?thesis by (simp add: g)
    next
      case False
      then have "take 50 ?b = ?b" by simp
      with False ne sanitised_last [OF ne] show ?thesis by (simp add: g)
    qed
  qed
  from g len alnum dash show ?thesis
    by blast
qed

theorem truncated_filename_length_witness:
  "length (concat (replicate 20 ''hello, w! '')) = 200
   \<and> 50 \<le> length (filter ascii_alnum (concat (replicate 20 ''hello, w! '')))
   \<and> generateFilenameFromPrompt (concat (replicate 20 ''hello, w! ''))
       = ''hello-w-hello-w-hello-w-hello-w-hello-w-hello-w-he''
   \<and> length (generateFilenameFromPrompt (concat (replicate 20 ''hello, w! ''))) = 50
   \<and> last (generateFilenameFromPrompt (concat (replicate 20 ''hello, w! ''))) \<noteq> CHR ''-''"
proof -
  let ?p = "concat (replicate 20 ''hello, w! '')"
  have l: "length ?p = 200"
    by code_simp
  have a: "50 \<le> length (filter ascii_alnum ?p)"
    by code_simp
  have g: "generateFilenameFromPrompt ?p = ''hello-w-hello-w-hello-w-hello-w-hello-w-hello-w-he''"
    by code_simp
  from truncated_filename_length [OF l] a have "length (generateFilenameFromPrompt ?p) = 50"
    by blast
  moreover have "last (generateFilenameFromPrompt ?p) \<noteq> CHR ''-''"
    unfolding g by simp
  ultimately show ?thesis
    using l a g by blast
qed


section \<open>The fuzzy index and the selection loop, step by step\<close>

lemma fuse_search_items: "set (map item (fuse_search cost docs q)) \<subseteq> set docs"
proof
  fix x
  assume "x \<in> set (map item (fuse_search cost docs q))"
  then obtain r where r: "r \<in> set (fuse_search cost docs q)" and x: "x = item r"
    by auto
  from r obtain i d c where "(i, d) \<in> set (enumerate 0 docs)"
    and "r = \<lparr>item = d, refIndex = i, score = c\<rparr>"
    by (auto simp: fuse_search_def List.map_filter_def)
  then show "x \<in> set docs"
    using x by (auto simp: in_set_enumerate_eq)
qed

lemma fuse_search_sorted: "sorted (map score (fuse_search cost docs q))"
  by (simp add: fuse_search_def)

lemma string_trim_empty: "string_trim q = [] \<longleftrightarrow> list_all is_whitespace q"
proof -
  let ?d = "dropWhile is_whitespace q"
  have one: "string_trim q = [] \<longleftrightarrow> (\<forall>x\<in>set ?d. is_whitespace x)"
    unfolding string_trim_def rev_is_Nil_conv dropWhile_eq_Nil_conv set_rev ..
  have two: "(\<forall>x\<in>set ?d. is_whitespace x) \<longleftrightarrow> ?d = []"
  proof
    assume a: "\<forall>x\<in>set ?d. is_whitespace x"
    show "?d = []"
    proof (rule ccontr)
      assume n: "?d \<noteq> []"
      then have "\<not> is_whitespace (hd ?d)"
        by (rule hd_dropWhile)
      moreover have "hd ?d \<in> set ?d"
        using n by (rule hd_in_set)
      ultimately show False
        using a by blast
    qed
  next
    assume "?d = []"
    then show "\<forall>x\<in>set ?d. is_whitespace x"
      by (simp only: list.set ball_empty)
  qed
  have three: "?d = [] \<longleftrightarrow> list_all is_whitespace q"
    unfolding dropWhile_eq_Nil_conv list_all_iff ..
  from one two three show ?thesis
    by blast
qed

lemma source_members:
  assumes "x \<in> set (source cost cwd allFiles input)"
  shows "x = ''Done'' \<or> x \<in> set (relativePaths cwd allFiles)"
proof (cases "string_trim (case input of None \<Rightarrow> [] | Some i \<Rightarrow> i) = []")
  case True
  with assms show ?thesis
    by (simp add: source_def)
next
  case False
  with assms have "x \<in> set (map item (fuse_search cost (relativePaths cwd allFiles)
                                      (case input of None \<Rightarrow> [] | Some i \<Rightarrow> i)))"
    by (simp add: source_def)
  then show ?thesis
    using fuse_search_items by blast
qed

lemma select_file_invariant:
  assumes "distinct (selectedFiles s)" and "set (selectedFiles s) \<subseteq> C"
    and "file = ''Done'' \<or> file \<in> C"
  shows "distinct (selectedFiles (select_file s file)) \<and> set (selectedFiles (select_file s file)) \<subseteq> C"
  using assms by (auto simp: select_file_def)

lemma selection_loop_invariant:
  assumes "distinct (selectedFiles s)" and "set (selectedFiles s) \<subseteq> C"
    and "\<forall>file\<in>set answers. file = ''Done'' \<or> file \<in> C"
  shows "distinct (selectedFiles (selection_loop s answers))
         \<and> set (selectedFiles (selection_loop s answers)) \<subseteq> C"
  using assms
proof (induction answers arbitrary: s)
  case Nil
  then show ?case by simp
next
  case (Cons f answers)
  show ?case
  proof (cases "addingFiles s")
    case True
    have "distinct (selectedFiles (select_file s f))
          \<and> set (selectedFiles (select_file s f)) \<subseteq> C"
      using Cons.prems by (intro select_file_invariant) simp_all
    then show ?thesis
      using Cons.IH [of "select_file s f"] Cons.prems(3) True by simp
  next
    case False
    with Cons.prems show ?thesis by simp
  qed
qed

lemma selection_loop_no_Done:
  "''Done'' \<notin> set (selectedFiles s) \<Longrightarrow>
   ''Done'' \<notin> set (selectedFiles (selection_loop s answers))"
proof (induction answers arbitrary: s)
  case Nil
  then show ?case by simp
next
  case (Cons f answers)
  have "''Done'' \<notin> set (selectedFiles (select_file s f))"
    using Cons.prems by (auto simp: select_file_def)
  then show ?case
    using Cons.IH [of "select_file s f"] Cons.prems by simp
qed

section \<open>Properties of the selection loop\<close>

text \<open>
  C5: the selection invariant.  If every answer of the user is an element of the list that
  was offered for what the user had typed, then after every iteration (after the first \<open>n\<close>
  interactions, for every \<open>n\<close>) the selection has no duplicates and contains only members
  of the candidate set.
\<close>

theorem selection_invariant:
  assumes "list_all (offered cost cwd allFiles) script"
  shows "distinct (selectedFiles (selection_loop initial_session (map chosen (take n script))))
         \<and> set (selectedFiles (selection_loop initial_session (map chosen (take n script))))
             \<subseteq> set (relativePaths cwd allFiles)"
proof (rule selection_loop_invariant)
  show "distinct (selectedFiles initial_session)"
    by (simp add: initial_session_def)
  show "set (selectedFiles initial_session) \<subseteq> set (relativePaths cwd allFiles)"
    by (simp add: initial_session_def)
  show "\<forall>file\<in>set (map chosen (take n script)).
          file = ''Done'' \<or> file \<in> set (relativePaths cwd allFiles)"
  proof
    fix f
    assume "f \<in> set (map chosen (take n script))"
    then obtain i where "i \<in> set script" and "f = chosen i"
      by (auto dest: in_set_takeD)
    with assms have "f \<in> set (source cost cwd allFiles (typed i))"
      by (auto simp: offered_def list_all_iff)
    then show "f = ''Done'' \<or> f \<in> set (relativePaths cwd allFiles)"
      by (rule source_members)
  qed
qed

text \<open>
  C6: selection idempotence.  Choosing a path that is already in the selection leaves the
  selection as it is, in one pass through the loop body and in one iteration of the loop;
  so choosing any path twice in a row gives the selection that choosing it once gives.
\<close>

theorem selection_idempotent:
  "(file \<in> set (selectedFiles s) \<longrightarrow>
      selectedFiles (select_file s file) = selectedFiles s
      \<and> selectedFiles (selection_loop s [file]) = selectedFiles s)
   \<and> selectedFiles (select_file (select_file s file) file) = selectedFiles (select_file s file)"
  by (auto simp: select_file_def)

text \<open>
  C10: the answer \<open>Done\<close> ends the loop and leaves the selection alone, also when a
  candidate file has that very path; so whatever the user answers, the selection never
  contains \<open>Done\<close>.
\<close>

theorem done_never_selected:
  "select_file s ''Done'' = s\<lparr>addingFiles := False\<rparr>
   \<and> ''Done'' \<notin> set (selectedFiles (selection_loop initial_session answers))"
proof
  show "select_file s ''Done'' = s\<lparr>addingFiles := False\<rparr>"
    by (simp add: select_file_def)
  show "''Done'' \<notin> set (selectedFiles (selection_loop initial_session answers))"
    by (rule selection_loop_no_Done) (simp add: initial_session_def)
qed


theorem selection_invariant_witness:
  "list_all (offered substring_cost ''/p'' [''/p/a.txt'', ''/p/b.txt''])
     [\<lparr>typed = None, chosen = ''a.txt''\<rparr>, \<lparr>typed = Some ''b'', chosen = ''b.txt''\<rparr>,
      \<lparr>typed = Some '' '', chosen = ''a.txt''\<rparr>, \<lparr>typed = None, chosen = ''Done''\<rparr>]
   \<and> selectedFiles (selection_loop initial_session (map chosen (take 4
         [\<lparr>typed = None, chosen = ''a.txt''\<rparr>, \<lparr>typed = Some ''b'', chosen = ''b.txt''\<rparr>,
          \<lparr>typed = Some '' '', chosen = ''a.txt''\<rparr>, \<lparr>typed = None, chosen = ''Done''\<rparr>])))
       = [''a.txt'', ''b.txt'']
   \<and> distinct (selectedFiles (selection_loop initial_session (map chosen (take 4
         [\<lparr>typed = None, chosen = ''a.txt''\<rparr>, \<lparr>typed = Some ''b'', chosen = ''b.txt''\<rparr>,
          \<lparr>typed = Some '' '', chosen = ''a.txt''\<rparr>, \<lparr>typed = None, chosen = ''Done''\<rparr>]))))
   \<and> set (selectedFiles (selection_loop initial_session (map chosen (take 4
         [\<lparr>typed = None, chosen = ''a.txt''\<rparr>, \<lparr>typed = Some ''b'', chosen = ''b.txt''\<rparr>,
          \<lparr>typed = Some '' '', chosen = ''a.txt''\<rparr>, \<lparr>typed = None, chosen = ''Done''\<rparr>]))))
       \<subseteq> set (relativePaths ''/p'' [''/p/a.txt'', ''/p/b.txt''])"
proof -
  let ?script = "[\<lparr>typed = None, chosen = ''a.txt''\<rparr>, \<lparr>typed = Some ''b'', chosen = ''b.txt''\<rparr>,
      \<lparr>typed = Some '' '', chosen = ''a.txt''\<rparr>, \<lparr>typed = None, chosen = ''Done''\<rparr>]"
  have o: "list_all (offered substring_cost ''/p'' [''/p/a.txt'', ''/p/b.txt'']) ?script"
    by code_simp
  have r: "selectedFiles (selection_loop initial_session (map chosen (take 4 ?script)))
           = [''a.txt'', ''b.txt'']"
    by code_simp
  from o r selection_invariant [OF o, of 4] show ?thesis
    by (intro conjI) simp_all
qed

theorem selection_idempotent_witness:
  "''a.txt'' \<in> set (selectedFiles \<lparr>selectedFiles = [''a.txt'', ''b.txt''], addingFiles = True\<rparr>)
   \<and> selectedFiles (select_file \<lparr>selectedFiles = [''a.txt'', ''b.txt''], addingFiles = True\<rparr> ''a.txt'')
       = [''a.txt'', ''b.txt'']
   \<and> selectedFiles (selection_loop \<lparr>selectedFiles = [''a.txt'', ''b.txt''], addingFiles = True\<rparr>
         [''a.txt'']) = [''a.txt'', ''b.txt'']"
  using selection_idempotent
    [of "''a.txt''" "\<lparr>selectedFiles = [''a.txt'', ''b.txt''], addingFiles = True\<rparr>"]
  by simp

theorem done_never_selected_witness:
  "selection_loop initial_session [''a.txt'', ''Done'', ''b.txt'']
     = \<lparr>selectedFiles = [''a.txt''], addingFiles = False\<rparr>
   \<and> ''Done'' \<notin> set (selectedFiles (selection_loop initial_session [''a.txt'', ''Done'', ''b.txt'']))"
proof -
  have "selection_loop initial_session [''a.txt'', ''Done'', ''b.txt'']
     = \<lparr>selectedFiles = [''a.txt''], addingFiles = False\<rparr>"
    by code_simp
  then show ?thesis
    using done_never_selected [of initial_session "[''a.txt'', ''Done'', ''b.txt'']"] by simp
qed

text \<open>
  A query of one space is not empty, and yet the list presented for it is \<open>Done\<close> followed
  by the candidate set, not the result of the fuzzy search (which here is empty).
\<close>

theorem presented_list_counterexample:
  "'' '' \<noteq> []
   \<and> source substring_cost ''/p'' [''/p/a.txt''] (Some '' '') = [''Done'', ''a.txt'']
   \<and> map item (fuse_search substring_cost (relativePaths ''/p'' [''/p/a.txt'']) '' '') = []"
  by code_simp

text \<open>
  C4, as amended: when the query is absent, empty or made of white space only, the list
  presented is \<open>Done\<close> followed by the candidate set in its order; otherwise it is the
  result of the fuzzy search for the query, with no sentinel added, so that every entry of
  it is a candidate path.
\<close>

theorem presented_list:
  "source cost cwd allFiles None = ''Done'' # relativePaths cwd allFiles
   \<and> (list_all is_whitespace q \<longrightarrow>
        source cost cwd allFiles (Some q) = ''Done'' # relativePaths cwd allFiles)
   \<and> (\<not> list_all is_whitespace q \<longrightarrow>
        source cost cwd allFiles (Some q)
          = map item (fuse_search cost (relativePaths cwd allFiles) q)
        \<and> set (source cost cwd allFiles (Some q)) \<subseteq> set (relativePaths cwd allFiles))"
proof (intro conjI impI)
  show "source cost cwd allFiles None = ''Done'' # relativePaths cwd allFiles"
    by (simp add: source_def string_trim_def)
next
  assume "list_all is_whitespace q"
  then show "source cost cwd allFiles (Some q) = ''Done'' # relativePaths cwd allFiles"
    by (simp add: source_def string_trim_empty)
next
  assume n: "\<not> list_all is_whitespace q"
  then show s: "source cost cwd allFiles (Some q)
                = map item (fuse_search cost (relativePaths cwd allFiles) q)"
    by (simp add: source_def string_trim_empty)
  show "set (source cost cwd allFiles (Some q)) \<subseteq> set (relativePaths cwd allFiles)"
    unfolding s by (rule fuse_search_items)
qed

theorem presented_list_witness:
  "list_all is_whitespace '' ''
   \<and> source substring_cost ''/p'' [''/p/a.txt'', ''/p/b.txt''] (Some '' '')
       = [''Done'', ''a.txt'', ''b.txt'']
   \<and> \<not> list_all is_whitespace ''b''
   \<and> source substring_cost ''/p'' [''/p/a.txt'', ''/p/b.txt''] (Some ''b'') = [''b.txt'']"
proof -
  have w: "list_all is_whitespace '' ''"
    by code_simp
  have n: "\<not> list_all is_whitespace ''b''"
    by code_simp
  have r: "relativePaths ''/p'' [''/p/a.txt'', ''/p/b.txt''] = [''a.txt'', ''b.txt'']"
    by code_simp
  have f: "map item (fuse_search substring_cost [''a.txt'', ''b.txt''] ''b'') = [''b.txt'']"
    by code_simp
  from presented_list [of substring_cost "''/p''" "[''/p/a.txt'', ''/p/b.txt'']" "'' ''"]
    presented_list [of substring_cost "''/p''" "[''/p/a.txt'', ''/p/b.txt'']" "''b''"]
    w n r f
  show ?thesis
    by simp
qed

section \<open>Properties of the document assembly\<close>







end
